theory Spec2Isabelle
  imports Main
begin

section \<open>Python values and the string primitives used by the reconciliation engine\<close>

text \<open>
  The embedding covers the JSON-to-spreadsheet half of \<^verbatim>\<open>finalApplication.py\<close>
  (lines 266 to 382). Python strings are modelled as \<^typ>\<open>string\<close> over ASCII text:
  characters above 127 are carried through unchanged and are neither whitespace, digits
  nor letters. A value that reaches \<^verbatim>\<open>norm\<close>, \<^verbatim>\<open>str\<close> or a worksheet cell is
  \<^verbatim>\<open>None\<close>, a bool, an int or a str; floats, dates and lists are not embedded.
\<close>

datatype pyval = PNone | PBool bool | PInt int | PStr string

datatype py_error = IndexError | KeyError

definition py_isspace :: "char \<Rightarrow> bool" where
  \<comment> \<open>\<^verbatim>\<open>str.isspace\<close> on ASCII: TAB, LF, VT, FF, CR, FS, GS, RS, US and the space.\<close>
  "py_isspace c = (let n = (of_char c :: nat) in (9 \<le> n \<and> n \<le> 13) \<or> (28 \<le> n \<and> n \<le> 32))"

definition py_isdigit :: "char \<Rightarrow> bool" where
  "py_isdigit c = (let n = (of_char c :: nat) in 48 \<le> n \<and> n \<le> 57)"

definition py_upper_char :: "char \<Rightarrow> char" where
  "py_upper_char c = (let n = (of_char c :: nat) in if 97 \<le> n \<and> n \<le> 122 then char_of (n - 32) else c)"

definition py_upper :: "string \<Rightarrow> string" where
  "py_upper s = map py_upper_char s"

fun nat_digits :: "nat \<Rightarrow> string" where
  "nat_digits n = (if n < 10 then [char_of (48 + n)] else nat_digits (n div 10) @ [char_of (48 + n mod 10)])"

declare nat_digits.simps [simp del]

fun py_str :: "pyval \<Rightarrow> string" where
  "py_str PNone = ''None''"
| "py_str (PBool b) = (if b then ''True'' else ''False'')"
| "py_str (PInt i) = (if i < 0 then CHR ''-'' # nat_digits (nat (- i)) else nat_digits (nat i))"
| "py_str (PStr s) = s"

fun truthy :: "pyval \<Rightarrow> bool" where
  "truthy PNone = False"
| "truthy (PBool b) = b"
| "truthy (PInt i) = (i \<noteq> 0)"
| "truthy (PStr s) = (s \<noteq> [])"

definition startswith :: "string \<Rightarrow> string \<Rightarrow> bool" where
  \<comment> \<open>\<^verbatim>\<open>s.startswith(p)\<close>\<close>
  "startswith s p = (take (length p) s = p)"

fun py_in :: "string \<Rightarrow> string \<Rightarrow> bool" where
  \<comment> \<open>\<^verbatim>\<open>needle in s\<close> on strings\<close>
  "py_in needle [] = (needle = [])"
| "py_in needle (c # cs) = (startswith (c # cs) needle \<or> py_in needle cs)"

definition replace_nl :: "string \<Rightarrow> string" where
  \<comment> \<open>\<^verbatim>\<open>.replace("\n", " ")\<close>\<close>
  "replace_nl s = map (\<lambda>c. if c = CHR 0x0A then CHR '' '' else c) s"

definition strip :: "string \<Rightarrow> string" where
  \<comment> \<open>\<^verbatim>\<open>.strip()\<close>\<close>
  "strip s = rev (dropWhile py_isspace (rev (dropWhile py_isspace s)))"

fun replace_hash :: "string \<Rightarrow> string" where
  \<comment> \<open>\<^verbatim>\<open>.replace("# ", "#")\<close>: non-overlapping occurrences, left to right\<close>
  "replace_hash (c # d # cs) =
     (if c = CHR ''#'' \<and> d = CHR '' '' then CHR ''#'' # replace_hash cs
      else c # replace_hash (d # cs))"
| "replace_hash cs = cs"

function py_split :: "string \<Rightarrow> string list" where
  \<comment> \<open>\<^verbatim>\<open>.split()\<close>: the maximal runs of non-whitespace characters\<close>
  "py_split s =
     (let r = dropWhile py_isspace s in
      if r = [] then []
      else takeWhile (\<lambda>c. \<not> py_isspace c) r # py_split (dropWhile (\<lambda>c. \<not> py_isspace c) r))"
  by pat_completeness auto
termination
proof (relation "measure length")
  show "wf (measure length)" by simp
next
  fix s r :: string
  assume r: "r = dropWhile py_isspace s" and ne: "r \<noteq> []"
  from ne obtain c cs where rc: "r = c # cs" by (cases r) auto
  have "\<not> py_isspace c" using r rc by (metis hd_dropWhile list.sel(1) ne)
  then have "length (dropWhile (\<lambda>c. \<not> py_isspace c) r) \<le> length cs"
    using rc by (simp add: length_dropWhile_le)
  moreover have "length r \<le> length s" using r by (simp add: length_dropWhile_le)
  ultimately show "(dropWhile (\<lambda>c. \<not> py_isspace c) r, s) \<in> measure length"
    using rc by simp
qed

declare py_split.simps [simp del]

fun py_join :: "string \<Rightarrow> string list \<Rightarrow> string" where
  \<comment> \<open>\<^verbatim>\<open>sep.join(xs)\<close>\<close>
  "py_join sep [] = []"
| "py_join sep [x] = x"
| "py_join sep (x # y # ys) = x @ sep @ py_join sep (y # ys)"

section \<open>Normalizer\<close>

definition norm :: "pyval \<Rightarrow> string" where
  \<comment> \<open>line 270\<close>
  "norm s =
     (if truthy s
      then py_upper (py_join '' '' (py_split (replace_hash (strip (replace_nl (py_str s))))))
      else [])"

definition FIELD_SYNONYMS :: "(string \<times> string) list" where
  "FIELD_SYNONYMS =
     [(''BDRMS'', ''BEDROOMS''),
      (''BATH(S)'', ''BATHS''),
      (''QUALITY'', ''QUALITY OF CONSTRUCTION''),
      (''QUALITY OF CONST'', ''QUALITY OF CONSTRUCTION''),
      (''PROPERTY ADDRESS'', ''PROPERTY ADDRESS''),
      (''ADDRESS'', ''ADDRESS''),
      (''LOT SIZE'', ''SITE''),
      (''AREA'', ''SITE'')]"

definition FIELD_ONLY_SET :: "string set" where
  "FIELD_ONLY_SET =
     {''OPINION OF SITE VALUE'', ''TOTAL ESTIMATE OF COST-NEW'', ''DEPRECIATION'',
      ''R.E. TAX YEAR'', ''HOA FREQUENCY'', ''POOL''}"

definition SALES_HISTORY_COMP_FIELDS :: "string set" where
  "SALES_HISTORY_COMP_FIELDS =
     {''DATE OF PRIOR SALE/TRANSFER'', ''PRICE OF PRIOR SALE/TRANSFER'', ''DATA SOURCE(S)'',
      ''EFFECTIVE DATE OF DATA SOURCE(S)''}"

definition canonical_field :: "pyval \<Rightarrow> string" where
  "canonical_field s = (let t = norm s in case map_of FIELD_SYNONYMS t of Some v \<Rightarrow> v | None \<Rightarrow> t)"

fun strip_prefix :: "string \<Rightarrow> string \<Rightarrow> string option" where
  \<comment> \<open>the rest of the text after a literal piece of a pattern, when the text starts with it\<close>
  "strip_prefix [] s = Some s"
| "strip_prefix (p # ps) [] = None"
| "strip_prefix (p # ps) (c # cs) = (if p = c then strip_prefix ps cs else None)"

definition match_comparabe :: "string \<Rightarrow> string option" where
  \<comment> \<open>\<^verbatim>\<open>re.match(r"COMPARA?BE\s*(\d+)", s)\<close>: group 1 of the match at the start of s.
      The optional A is taken when present (leaving it out would face the A again), the
      whitespace run and the digit run are both maximal.\<close>
  "match_comparabe s =
     (case strip_prefix ''COMPAR'' s of
        None \<Rightarrow> None
      | Some r \<Rightarrow>
          (case strip_prefix ''BE'' (if startswith r ''A'' then drop 1 r else r) of
             None \<Rightarrow> None
           | Some r2 \<Rightarrow>
               (let ds = takeWhile py_isdigit (dropWhile py_isspace r2)
                in if ds = [] then None else Some ds)))"

definition match_comp_sale :: "string \<Rightarrow> (string \<times> string) option" where
  \<comment> \<open>one match of \<^verbatim>\<open>COMPARABLE SALE #\s*(\d+)\<close> at the start of s: group 1 and the text
      after the match\<close>
  "match_comp_sale s =
     (case strip_prefix ''COMPARABLE SALE #'' s of
        None \<Rightarrow> None
      | Some r \<Rightarrow>
          (let r2 = dropWhile py_isspace r; ds = takeWhile py_isdigit r2
           in if ds = [] then None else Some (ds, dropWhile py_isdigit r2)))"

function sub_comp_sale :: "string \<Rightarrow> string" where
  \<comment> \<open>\<^verbatim>\<open>re.sub(r"COMPARABLE SALE #\s*(\d+)", r"COMPARABLE SALE #\1", s)\<close>: every
      non-overlapping match, left to right, is replaced\<close>
  "sub_comp_sale [] = []"
| "sub_comp_sale (c # cs) =
     (case match_comp_sale (c # cs) of
        Some (ds, r) \<Rightarrow> ''COMPARABLE SALE #'' @ ds @ sub_comp_sale r
      | None \<Rightarrow> c # sub_comp_sale cs)"
  by pat_completeness auto
termination
proof (relation "measure length")
  show "wf (measure length)" by simp
next
  fix c :: char and cs ds r :: string and x2 :: "string \<times> string"
  assume m: "match_comp_sale (c # cs) = Some x2" and x2: "(ds, r) = x2"
  have len: "length t + length p = length s" if "strip_prefix p s = Some t" for p s t
    using that by (induction p s rule: strip_prefix.induct) (auto split: if_splits)
  from m x2 obtain t where t: "strip_prefix ''COMPARABLE SALE #'' (c # cs) = Some t"
    by (auto simp: match_comp_sale_def split: option.splits)
  from m x2 t have "r = dropWhile py_isdigit (dropWhile py_isspace t)"
    by (auto simp: match_comp_sale_def Let_def split: if_splits)
  then have "length r \<le> length t"
    by (metis length_dropWhile_le order_trans)
  moreover have "length t < length (c # cs)" using len [OF t] by simp
  ultimately show "(r, c # cs) \<in> measure length" by simp
next
  fix c :: char and cs :: string
  show "(cs, c # cs) \<in> measure length" by simp
qed

definition canonical_section :: "pyval \<Rightarrow> string" where
  \<comment> \<open>lines 291 to 303\<close>
  "canonical_section x =
     (let s = norm x in
      case match_comparabe s of
        Some n \<Rightarrow> ''COMPARABLE SALE #'' @ n
      | None \<Rightarrow>
          if startswith s ''COMPARABLE SALE #'' then sub_comp_sale s
          else if py_in ''ONE-UNIT HOUSING TRENDS'' s then ''ONE_UNIT_HOUSING_TRENDS''
          else if py_in ''ONE-UNIT HOUSING'' s then ''ONE_UNIT_HOUSING''
          else if py_in ''RECONCILIATION'' s then ''RECONCILIATION''
          else if py_in ''COST APPROACH'' s then ''COST_APPROACH''
          else if py_in ''SALES'' s \<and> py_in ''HISTORY'' s then ''SALES_HISTORY''
          else if s = ''SUBJECT'' then ''SUBJECT''
          else s)"

section \<open>Flattener\<close>

text \<open>
  The extraction document after \<^verbatim>\<open>json.load\<close>: a dict keeps its keys in insertion order,
  so it is an association list; anything that is not a dict is a leaf.
\<close>

datatype json = Leaf pyval | Dict "(string \<times> json) list"

type_synonym flat_index = "string \<rightharpoonup> string"

fun first_section :: "string list \<Rightarrow> string" where
  \<comment> \<open>lines 315 to 320, on the reversed section candidates\<close>
  "first_section [] = []"
| "first_section (p # ps) =
     (let sec = canonical_section (PStr p) in if sec \<noteq> [] then sec else first_section ps)"

definition store_leaf :: "string list \<Rightarrow> pyval \<Rightarrow> flat_index \<Rightarrow> py_error + flat_index" where
  \<comment> \<open>lines 312 to 325; \<^verbatim>\<open>path[-1]\<close> raises IndexError on the empty path\<close>
  "store_leaf path obj flat =
     (if path = [] then Inl IndexError
      else
        let raw_sections = butlast path;
            raw_field = last path;
            field_c = canonical_field (PStr raw_field);
            section_c = first_section (rev raw_sections);
            val = py_str obj;
            flat1 = (if section_c \<noteq> [] \<and> field_c \<noteq> []
                     then flat(section_c @ ''.'' @ field_c \<mapsto> val) else flat);
            flat2 = (if field_c \<in> FIELD_ONLY_SET then flat1(field_c \<mapsto> val) else flat1)
        in Inr flat2)"

fun walk :: "string list \<Rightarrow> json \<Rightarrow> flat_index \<Rightarrow> py_error + flat_index"
  and walk_items :: "string list \<Rightarrow> (string \<times> json) list \<Rightarrow> flat_index \<Rightarrow> py_error + flat_index"
where
  "walk path (Dict kvs) flat = walk_items path kvs flat"
| "walk path (Leaf obj) flat = store_leaf path obj flat"
| "walk_items path [] flat = Inr flat"
| "walk_items path ((k, v) # kvs) flat =
     (case walk (path @ [k]) v flat of
        Inl e \<Rightarrow> Inl e
      | Inr flat' \<Rightarrow> walk_items path kvs flat')"

definition flatten_json :: "json \<Rightarrow> py_error + flat_index" where
  "flatten_json merged = walk [] merged Map.empty"

text \<open>
  The assignments \<^verbatim>\<open>flat[key] = val\<close> that the walk executes (lines 323 and 325), in the
  order it executes them: the trace against which the overwrite policy is stated.
\<close>

definition leaf_assignments :: "string list \<Rightarrow> pyval \<Rightarrow> (string \<times> string) list" where
  "leaf_assignments path obj =
     (let field_c = canonical_field (PStr (last path));
          section_c = first_section (rev (butlast path));
          val = py_str obj
      in (if section_c \<noteq> [] \<and> field_c \<noteq> [] then [(section_c @ ''.'' @ field_c, val)] else [])
         @ (if field_c \<in> FIELD_ONLY_SET then [(field_c, val)] else []))"

fun assignments :: "string list \<Rightarrow> json \<Rightarrow> (string \<times> string) list"
  and assignments_items :: "string list \<Rightarrow> (string \<times> json) list \<Rightarrow> (string \<times> string) list"
where
  "assignments path (Dict kvs) = assignments_items path kvs"
| "assignments path (Leaf obj) = leaf_assignments path obj"
| "assignments_items path [] = []"
| "assignments_items path ((k, v) # kvs) = assignments (path @ [k]) v @ assignments_items path kvs"

definition error_document :: "string \<Rightarrow> json" where
  \<comment> \<open>line 80: what \<^verbatim>\<open>clean_json_output\<close> returns when the model's text is not JSON\<close>
  "error_document raw_text =
     Dict [(''error'', Leaf (PStr ''Invalid JSON returned from model'')),
           (''raw_output'', Leaf (PStr raw_text))]"

section \<open>Column detector\<close>

text \<open>
  The active worksheet as the code reads it: \<^verbatim>\<open>ws.max_row\<close>, \<^verbatim>\<open>ws.max_column\<close> and
  \<^verbatim>\<open>ws.cell(row, column).value\<close>. Rows and columns are counted from 1; a cell that was
  never written holds \<^verbatim>\<open>None\<close>.
\<close>

record sheet =
  max_row :: nat
  max_column :: nat
  cell_value :: "nat \<Rightarrow> nat \<Rightarrow> pyval"

definition ROW_SECTION :: nat where "ROW_SECTION = 2"
definition ROW_FIELDS :: nat where "ROW_FIELDS = 3"
definition FIRST_DATA_ROW :: nat where "FIRST_DATA_ROW = 4"

fun raw_loop :: "sheet \<Rightarrow> nat list \<Rightarrow> string \<Rightarrow> string list \<Rightarrow> string list" where
  \<comment> \<open>lines 333 to 336: the columns still to visit, \<^verbatim>\<open>last\<close> and \<^verbatim>\<open>raw\<close>\<close>
  "raw_loop ws [] last_sec raw = raw"
| "raw_loop ws (col # cols) last_sec raw =
     (let sec = canonical_section (cell_value ws ROW_SECTION col);
          last_sec' = (if sec \<noteq> [] then sec else last_sec)
      in raw_loop ws cols last_sec' (raw @ [last_sec']))"

fun find_comp1 :: "nat \<Rightarrow> string list \<Rightarrow> nat option" where
  \<comment> \<open>line 337: \<^verbatim>\<open>next((i for i, x in enumerate(raw, 1) if x == "COMPARABLE SALE #1"), None)\<close>\<close>
  "find_comp1 i [] = None"
| "find_comp1 i (x # xs) = (if x = ''COMPARABLE SALE #1'' then Some i else find_comp1 (Suc i) xs)"

definition py_index :: "'a list \<Rightarrow> nat \<Rightarrow> py_error + 'a" where
  \<comment> \<open>\<^verbatim>\<open>xs[i]\<close> for an index that is not negative\<close>
  "py_index xs i = (if i < length xs then Inr (xs ! i) else Inl IndexError)"

definition fallback_section :: "sheet \<Rightarrow> nat option \<Rightarrow> nat \<Rightarrow> string \<Rightarrow> string" where
  \<comment> \<open>lines 341 to 346: the section of column \<^verbatim>\<open>col\<close> whose propagated section is \<^verbatim>\<open>sec\<close>;
      \<^verbatim>\<open>comp1_start and col < comp1_start\<close> tests an optional int for truth first\<close>
  "fallback_section ws comp1_start col sec =
     (let field = canonical_field (cell_value ws ROW_FIELDS col)
      in if sec = []
         then (if (case comp1_start of None \<Rightarrow> False | Some c1 \<Rightarrow> c1 \<noteq> 0 \<and> col < c1)
               then ''SUBJECT''
               else if field \<in> SALES_HISTORY_COMP_FIELDS then ''SALES_HISTORY_SUBJECT''
               else sec)
         else sec)"

fun final_loop ::
  "sheet \<Rightarrow> string list \<Rightarrow> nat option \<Rightarrow> nat list \<Rightarrow> (nat \<rightharpoonup> string) \<Rightarrow> py_error + (nat \<rightharpoonup> string)"
where
  \<comment> \<open>lines 339 to 347; every column visited is at least 1, so \<^verbatim>\<open>col - 1\<close> is not negative\<close>
  "final_loop ws raw comp1_start [] final = Inr final"
| "final_loop ws raw comp1_start (col # cols) final =
     (case py_index raw (col - 1) of
        Inl e \<Rightarrow> Inl e
      | Inr sec \<Rightarrow>
          final_loop ws raw comp1_start cols (final(col \<mapsto> fallback_section ws comp1_start col sec)))"

definition detect_sections :: "sheet \<Rightarrow> py_error + (nat \<rightharpoonup> string)" where
  "detect_sections ws =
     (let max_col = max_column ws;
          raw = raw_loop ws [1 ..< max_col + 1] [] [];
          comp1_start = find_comp1 1 raw
      in final_loop ws raw comp1_start [1 ..< max_col + 1] Map.empty)"

text \<open>
  The column detector as the specification words it: the section of a column is the label
  of the nearest section-row cell at or left of it that canonicalizes non-empty; without
  one, the column falls back on its position before a column resolving to
  \<^verbatim>\<open>COMPARABLE SALE #1\<close>, then on its field label.
\<close>

fun nearest_label :: "sheet \<Rightarrow> nat \<Rightarrow> string" where
  "nearest_label ws 0 = []"
| "nearest_label ws (Suc c) =
     (let sec = canonical_section (cell_value ws ROW_SECTION (Suc c))
      in if sec \<noteq> [] then sec else nearest_label ws c)"

definition spec_section :: "sheet \<Rightarrow> nat \<Rightarrow> string" where
  "spec_section ws col =
     (if nearest_label ws col \<noteq> [] then nearest_label ws col
      else if \<exists>c \<in> set [1 ..< max_column ws + 1].
                nearest_label ws c = ''COMPARABLE SALE #1'' \<and> col < c
        then ''SUBJECT''
      else if canonical_field (cell_value ws ROW_FIELDS col) \<in> SALES_HISTORY_COMP_FIELDS
        then ''SALES_HISTORY_SUBJECT''
      else [])"

text \<open>A worksheet given by its section row and its field row, for worked examples.\<close>

definition header_sheet :: "pyval list \<Rightarrow> pyval list \<Rightarrow> sheet" where
  "header_sheet secs flds =
     \<lparr>max_row = 3, max_column = length secs,
      cell_value = (\<lambda>r c. if c = 0 then PNone
                           else if r = 2 \<and> c \<le> length secs then secs ! (c - 1)
                           else if r = 3 \<and> c \<le> length flds then flds ! (c - 1)
                           else PNone)\<rparr>"

section \<open>Value resolver\<close>

definition flat_get :: "flat_index \<Rightarrow> string \<Rightarrow> string" where
  \<comment> \<open>\<^verbatim>\<open>flat.get(key, "")\<close>\<close>
  "flat_get flat key = (case flat key of Some v \<Rightarrow> v | None \<Rightarrow> [])"

definition pick_value :: "string \<Rightarrow> string \<Rightarrow> flat_index \<Rightarrow> string" where
  \<comment> \<open>lines 350 to 361\<close>
  "pick_value section field flat =
     (if field \<in> FIELD_ONLY_SET then flat_get flat field
      else if field \<in> SALES_HISTORY_COMP_FIELDS \<and> startswith section ''COMPARABLE SALE #''
        then flat_get flat (section @ ''.'' @ field)
      else if startswith section ''COMPARABLE SALE #'' then flat_get flat (section @ ''.'' @ field)
      else if section = ''SUBJECT'' then flat_get flat (''SUBJECT.'' @ field)
      else if section = ''SALES_HISTORY_SUBJECT'' then flat_get flat (''SALES_HISTORY.Subject.'' @ field)
      else flat_get flat (section @ ''.'' @ field))"

section \<open>Writer\<close>

type_synonym colmap = "((string \<times> string) \<times> nat) list"

definition setdefault :: "('k \<times> 'v) list \<Rightarrow> 'k \<Rightarrow> 'v \<Rightarrow> ('k \<times> 'v) list" where
  \<comment> \<open>\<^verbatim>\<open>d.setdefault(k, v)\<close> on a dict kept in insertion order\<close>
  "setdefault d k v = (case map_of d k of Some _ \<Rightarrow> d | None \<Rightarrow> d @ [(k, v)])"

fun colmap_loop :: "sheet \<Rightarrow> (nat \<rightharpoonup> string) \<Rightarrow> nat list \<Rightarrow> colmap \<Rightarrow> py_error + colmap" where
  \<comment> \<open>lines 367 to 371; \<^verbatim>\<open>secmap[col]\<close> raises KeyError on a missing column\<close>
  "colmap_loop ws secmap [] cm = Inr cm"
| "colmap_loop ws secmap (col # cols) cm =
     (case secmap col of
        None \<Rightarrow> Inl KeyError
      | Some sec \<Rightarrow>
          (let field = canonical_field (cell_value ws ROW_FIELDS col)
           in colmap_loop ws secmap cols
                (if sec \<noteq> [] \<and> field \<noteq> [] then setdefault cm (sec, field) col else cm)))"

definition build_colmap :: "sheet \<Rightarrow> (nat \<rightharpoonup> string) \<Rightarrow> py_error + colmap" where
  "build_colmap ws secmap = colmap_loop ws secmap [1 ..< max_column ws + 1] []"

text \<open>
  The first-occurrence policy in the specification's words: column \<^verbatim>\<open>c\<close> bears the identity
  \<^verbatim>\<open>(s, f)\<close>, and it is the first of the columns 1 to \<^verbatim>\<open>n\<close> to do so.
\<close>

definition bears :: "sheet \<Rightarrow> (nat \<rightharpoonup> string) \<Rightarrow> nat \<Rightarrow> string \<Rightarrow> string \<Rightarrow> bool" where
  "bears ws secmap c s f =
     (secmap c = Some s \<and> canonical_field (cell_value ws ROW_FIELDS c) = f)"

definition first_bearing ::
  "sheet \<Rightarrow> (nat \<rightharpoonup> string) \<Rightarrow> nat \<Rightarrow> string \<Rightarrow> string \<Rightarrow> nat \<Rightarrow> bool"
where
  "first_bearing ws secmap n s f c =
     (1 \<le> c \<and> c \<le> n \<and> bears ws secmap c s f
      \<and> \<not> (\<exists>c' \<in> set [1 ..< c]. bears ws secmap c' s f))"

definition is_blank :: "pyval \<Rightarrow> bool" where
  \<comment> \<open>\<^verbatim>\<open>current in (None, "", " ")\<close>\<close>
  "is_blank v = (v = PNone \<or> v = PStr [] \<or> v = PStr '' '')"

definition set_cell :: "sheet \<Rightarrow> nat \<Rightarrow> nat \<Rightarrow> pyval \<Rightarrow> sheet" where
  \<comment> \<open>\<^verbatim>\<open>ws.cell(row=r, column=c).value = v\<close>\<close>
  "set_cell ws r c v =
     ws\<lparr>cell_value := (\<lambda>r' c'. if r' = r \<and> c' = c then v else cell_value ws r' c')\<rparr>"

fun fill_loop :: "nat \<Rightarrow> flat_index \<Rightarrow> colmap \<Rightarrow> sheet \<Rightarrow> nat \<Rightarrow> sheet \<times> nat" where
  \<comment> \<open>lines 375 to 382: the entries still to visit, the worksheet and \<^verbatim>\<open>filled\<close>\<close>
  "fill_loop new_row flat [] ws filled = (ws, filled)"
| "fill_loop new_row flat (((sec, field), col) # rest) ws filled =
     (let current = cell_value ws new_row col in
      if \<not> is_blank current then fill_loop new_row flat rest ws filled
      else
        let val = pick_value sec field flat in
        if val \<noteq> [] then fill_loop new_row flat rest (set_cell ws new_row col (PStr val)) (filled + 1)
        else fill_loop new_row flat rest ws filled)"

definition fill_excel :: "sheet \<Rightarrow> json \<Rightarrow> py_error + (sheet \<times> nat)" where
  \<comment> \<open>lines 363 to 382\<close>
  "fill_excel ws merged_json =
     (case flatten_json merged_json of
        Inl e \<Rightarrow> Inl e
      | Inr flat \<Rightarrow>
          (case detect_sections ws of
             Inl e \<Rightarrow> Inl e
           | Inr secmap \<Rightarrow>
               (case build_colmap ws secmap of
                  Inl e \<Rightarrow> Inl e
                | Inr cm \<Rightarrow>
                    (let new_row = max (max_row ws + 1) FIRST_DATA_ROW
                     in Inr (fill_loop new_row flat cm ws 0)))))"

text \<open>A one-column worksheet whose first data row is already filled, for worked examples.\<close>

definition filled_sheet :: sheet where
  "filled_sheet =
     \<lparr>max_row = 4, max_column = 1,
      cell_value = (\<lambda>r c. if r = 2 \<and> c = 1 then PStr ''Subject''
                          else if r = 3 \<and> c = 1 then PStr ''State''
                          else if r = 4 \<and> c = 1 then PStr ''IL'' else PNone)\<rparr>"

text \<open>One assignment \<^verbatim>\<open>flat[key] = val\<close> of the flattener, and a SUBJECT block with two spellings
  of the same field.\<close>

definition assign :: "string \<times> string \<Rightarrow> flat_index \<Rightarrow> flat_index" where
  "assign kv flat = flat(fst kv \<mapsto> snd kv)"

definition bedrooms_doc :: json where
  "bedrooms_doc =
     Dict [(''SUBJECT'', Dict [(''Bdrms'', Leaf (PStr ''3'')), (''Bedrooms'', Leaf (PStr ''4''))])]"





section \<open>Properties of the normalizer\<close>

lemma digit_not_space: "py_isdigit c \<Longrightarrow> \<not> py_isspace c"
  by (auto simp: py_isdigit_def py_isspace_def Let_def)

lemma takeWhile_digits_rest:
  assumes "\<forall>c\<in>set ds. py_isdigit c" "rest = [] \<or> \<not> py_isdigit (hd rest)"
  shows "takeWhile py_isdigit (ds @ rest) = ds"
proof -
  have "takeWhile py_isdigit rest = []" using assms(2) by (cases rest) auto
  then show ?thesis using assms(1) by (simp add: takeWhile_append2)
qed

lemma dropWhile_space_digits:
  assumes "\<forall>c\<in>set sp. py_isspace c" "ds \<noteq> []" "\<forall>c\<in>set ds. py_isdigit c"
  shows "dropWhile py_isspace (sp @ ds @ rest) = ds @ rest"
proof -
  obtain d ds' where d: "ds = d # ds'" using assms(2) by (cases ds) auto
  then have "\<not> py_isspace d" using assms(3) by (simp add: digit_not_space)
  then have "dropWhile py_isspace (ds @ rest) = ds @ rest" using d by simp
  then show ?thesis using assms(1) by (simp add: dropWhile_append2)
qed

lemma match_comparabe_fuzzy:
  assumes "pre = ''COMPARBE'' \<or> pre = ''COMPARABE''"
    and "\<forall>c\<in>set sp. py_isspace c" and "ds \<noteq> []" and "\<forall>c\<in>set ds. py_isdigit c"
    and "rest = [] \<or> \<not> py_isdigit (hd rest)"
  shows "match_comparabe (pre @ sp @ ds @ rest) = Some ds"
proof -
  have "dropWhile py_isspace (sp @ ds @ rest) = ds @ rest"
    using assms(2,3,4) by (rule dropWhile_space_digits)
  moreover have "takeWhile py_isdigit (ds @ rest) = ds"
    using assms(4,5) by (rule takeWhile_digits_rest)
  ultimately have tw: "takeWhile py_isdigit (dropWhile py_isspace (sp @ ds @ rest)) = ds"
    by simp
  from assms(1) show ?thesis
  proof
    assume "pre = ''COMPARBE''"
    then show ?thesis using tw assms(3) by (simp add: match_comparabe_def startswith_def)
  next
    assume "pre = ''COMPARABE''"
    then show ?thesis using tw assms(3) by (simp add: match_comparabe_def startswith_def)
  qed
qed

lemma strip_prefix_append: "strip_prefix p (p @ r) = Some r"
  by (induction p) simp_all

lemma strip_prefix_Some: "strip_prefix p s = Some t \<Longrightarrow> s = p @ t"
  by (induction p s rule: strip_prefix.induct) (auto split: if_splits)

lemma dropWhile_digits_rest:
  assumes "\<forall>c\<in>set ds. py_isdigit c" "rest = [] \<or> \<not> py_isdigit (hd rest)"
  shows "dropWhile py_isdigit (ds @ rest) = rest"
proof -
  have "dropWhile py_isdigit rest = rest" using assms(2) by (cases rest) auto
  then show ?thesis using assms(1) by (simp add: dropWhile_append2)
qed

lemma match_comparabe_canonical: "match_comparabe (''COMPARABLE SALE #'' @ t) = None"
  by (simp add: match_comparabe_def startswith_def)

lemma match_comp_sale_digits:
  assumes "\<forall>c\<in>set sp. py_isspace c" and "ds \<noteq> []" and "\<forall>c\<in>set ds. py_isdigit c"
    and "rest = [] \<or> \<not> py_isdigit (hd rest)"
  shows "match_comp_sale (''COMPARABLE SALE #'' @ sp @ ds @ rest) = Some (ds, rest)"
proof -
  have p: "strip_prefix ''COMPARABLE SALE #'' (''COMPARABLE SALE #'' @ sp @ ds @ rest)
           = Some (sp @ ds @ rest)"
    by (rule strip_prefix_append)
  have d: "dropWhile py_isspace (sp @ ds @ rest) = ds @ rest"
    using assms(1,2,3) by (rule dropWhile_space_digits)
  have t: "takeWhile py_isdigit (ds @ rest) = ds"
    using assms(3,4) by (rule takeWhile_digits_rest)
  have r: "dropWhile py_isdigit (ds @ rest) = rest"
    using assms(3,4) by (rule dropWhile_digits_rest)
  show ?thesis
    unfolding match_comp_sale_def p by (simp add: Let_def d t r assms(2))
qed

lemma sub_comp_sale_head:
  assumes "\<forall>c\<in>set sp. py_isspace c" and "ds \<noteq> []" and "\<forall>c\<in>set ds. py_isdigit c"
    and "rest = [] \<or> \<not> py_isdigit (hd rest)"
  shows "sub_comp_sale (''COMPARABLE SALE #'' @ sp @ ds @ rest)
         = ''COMPARABLE SALE #'' @ ds @ sub_comp_sale rest"
  using match_comp_sale_digits [OF assms] by simp

lemma sub_comp_sale_absent: "\<not> py_in ''COMPARABLE SALE #'' s \<Longrightarrow> sub_comp_sale s = s"
proof (induction s rule: sub_comp_sale.induct)
  case 1
  then show ?case by simp
next
  case (2 c cs)
  from "2.prems" have ns: "\<not> startswith (c # cs) ''COMPARABLE SALE #''"
    and np: "\<not> py_in ''COMPARABLE SALE #'' cs"
    by simp_all
  have "strip_prefix ''COMPARABLE SALE #'' (c # cs) = None"
  proof (cases "strip_prefix ''COMPARABLE SALE #'' (c # cs)")
    case None
    then show ?thesis .
  next
    case (Some t)
    then have "c # cs = ''COMPARABLE SALE #'' @ t" by (rule strip_prefix_Some)
    then have "startswith (c # cs) ''COMPARABLE SALE #''" by (simp add: startswith_def)
    with ns show ?thesis by (rule notE)
  qed
  then have m: "match_comp_sale (c # cs) = None" by (simp add: match_comp_sale_def)
  have "sub_comp_sale cs = cs" using "2.IH"(1) [OF m np] .
  with m show ?case by simp
qed

lemma canonical_section_rule2:
  "canonical_section x = sub_comp_sale (norm x)" if "norm x = ''COMPARABLE SALE #'' @ t"
proof -
  have "match_comparabe (norm x) = None"
    unfolding that by (rule match_comparabe_canonical)
  moreover have "startswith (norm x) ''COMPARABLE SALE #''"
    unfolding that by (simp add: startswith_def)
  ultimately show ?thesis by (simp add: canonical_section_def Let_def)
qed

text \<open>
  Claim C9. The first rule of the cascade: a normalized label that starts with COMPARBE or
  COMPARABE, then any whitespace, then a run of digits, becomes COMPARABLE SALE # followed
  by those digits, whatever the later rules would say. The second rule: a normalized label
  that starts with COMPARABLE SALE #, then any whitespace, then a run of digits, is
  re-emitted with the whitespace between the hash and the digits removed, the text after
  the digits going through the same substitution; when that text holds no further
  COMPARABLE SALE # it is kept as it is. In particular "Comparable Sale #3" is re-emitted
  as COMPARABLE SALE #3, "Comparable Sale #  3" becomes COMPARABLE SALE #3 and
  "comparbe 7" becomes COMPARABLE SALE #7.
\<close>

theorem canonical_section_comparable:
  assumes "norm x = pre @ sp @ ds @ rest"
    and "pre = ''COMPARBE'' \<or> pre = ''COMPARABE''"
    and "\<forall>c\<in>set sp. py_isspace c" and "ds \<noteq> []" and "\<forall>c\<in>set ds. py_isdigit c"
    and "rest = [] \<or> \<not> py_isdigit (hd rest)"
    and "norm y = ''COMPARABLE SALE #'' @ sp' @ ds' @ rest'"
    and "\<forall>c\<in>set sp'. py_isspace c" and "ds' \<noteq> []" and "\<forall>c\<in>set ds'. py_isdigit c"
    and "rest' = [] \<or> \<not> py_isdigit (hd rest')"
  shows "canonical_section x = ''COMPARABLE SALE #'' @ ds
       \<and> canonical_section y = ''COMPARABLE SALE #'' @ ds' @ sub_comp_sale rest'
       \<and> (\<not> py_in ''COMPARABLE SALE #'' rest'
            \<longrightarrow> canonical_section y = ''COMPARABLE SALE #'' @ ds' @ rest')
       \<and> canonical_section (PStr ''Comparable Sale #3'') = ''COMPARABLE SALE #3''
       \<and> canonical_section (PStr ''Comparable Sale #  3'') = ''COMPARABLE SALE #3''
       \<and> canonical_section (PStr ''comparbe 7'') = ''COMPARABLE SALE #7''"
proof -
  have "match_comparabe (norm x) = Some ds"
    using assms(1-6) by (simp add: match_comparabe_fuzzy)
  then have r1: "canonical_section x = ''COMPARABLE SALE #'' @ ds"
    by (simp add: canonical_section_def)
  have "canonical_section y = sub_comp_sale (''COMPARABLE SALE #'' @ sp' @ ds' @ rest')"
    using canonical_section_rule2 [OF assms(7)] by (simp only: assms(7))
  also have "\<dots> = ''COMPARABLE SALE #'' @ ds' @ sub_comp_sale rest'"
    using assms(8-11) by (rule sub_comp_sale_head)
  finally have r2: "canonical_section y = ''COMPARABLE SALE #'' @ ds' @ sub_comp_sale rest'" .
  have r3: "\<not> py_in ''COMPARABLE SALE #'' rest'
            \<longrightarrow> canonical_section y = ''COMPARABLE SALE #'' @ ds' @ rest'"
  proof
    assume "\<not> py_in ''COMPARABLE SALE #'' rest'"
    then have "sub_comp_sale rest' = rest'" by (rule sub_comp_sale_absent)
    with r2 show "canonical_section y = ''COMPARABLE SALE #'' @ ds' @ rest'" by (simp only:)
  qed
  have e1: "canonical_section (PStr ''Comparable Sale #3'') = ''COMPARABLE SALE #3''"
    by code_simp
  have e2: "canonical_section (PStr ''Comparable Sale #  3'') = ''COMPARABLE SALE #3''"
    by code_simp
  have e3: "canonical_section (PStr ''comparbe 7'') = ''COMPARABLE SALE #7''"
    by code_simp
  from r1 r2 r3 e1 e2 e3 show ?thesis by (intro conjI)
qed

lemma norm_comparabe_12: "norm (PStr ''Comparabe  12 north'') = ''COMPARABE 12 NORTH''"
  by code_simp

lemma norm_comparable_sale_12:
  "norm (PStr ''Comparable Sale #  12 north'') = ''COMPARABLE SALE # 12 NORTH''"
  by code_simp

lemma north_no_comparable: "\<not> py_in ''COMPARABLE SALE #'' '' NORTH''"
  by code_simp

theorem canonical_section_comparable_witness:
  "canonical_section (PStr ''Comparabe  12 north'') = ''COMPARABLE SALE #12''
   \<and> canonical_section (PStr ''Comparable Sale #  12 north'') = ''COMPARABLE SALE #12 NORTH''"
proof -
  have sp: "\<forall>c\<in>set '' ''. py_isspace c" by (simp add: py_isspace_def)
  have dg: "\<forall>c\<in>set ''12''. py_isdigit c" by (simp add: py_isdigit_def)
  have rs: "'' NORTH'' = [] \<or> \<not> py_isdigit (hd '' NORTH'')" by (simp add: py_isdigit_def)
  have pre: "''COMPARABE'' = ''COMPARBE'' \<or> ''COMPARABE'' = ''COMPARABE''" by simp
  have ne: "''12'' \<noteq> []" by simp
  have nx: "norm (PStr ''Comparabe  12 north'') = ''COMPARABE'' @ '' '' @ ''12'' @ '' NORTH''"
    using norm_comparabe_12 by simp
  have ny: "norm (PStr ''Comparable Sale #  12 north'')
            = ''COMPARABLE SALE #'' @ '' '' @ ''12'' @ '' NORTH''"
    using norm_comparable_sale_12 by simp
  note t = canonical_section_comparable [OF nx pre sp ne dg rs ny sp ne dg rs]
  have a: "canonical_section (PStr ''Comparabe  12 north'') = ''COMPARABLE SALE #'' @ ''12''"
    using t by (rule conjunct1)
  have b: "canonical_section (PStr ''Comparable Sale #  12 north'')
           = ''COMPARABLE SALE #'' @ ''12'' @ '' NORTH''"
    using north_no_comparable
    by (rule t [THEN conjunct2, THEN conjunct2, THEN conjunct1, rule_format])
  from a b show ?thesis by simp
qed

section \<open>Properties of the column detector\<close>

declare upt_Suc [simp del]

lemma raw_loop_nearest:
  "raw_loop ws [Suc k ..< Suc n] (nearest_label ws k) raw = raw @ map (nearest_label ws) [Suc k ..< Suc n]"
proof (induction "n - k" arbitrary: k raw)
  case 0
  then show ?case by simp
next
  case (Suc d)
  then have lt: "k < n" and d: "d = n - Suc k" by auto
  have step: "[Suc k ..< Suc n] = Suc k # [Suc (Suc k) ..< Suc n]"
    using lt by (simp add: upt_conv_Cons)
  let ?l = "nearest_label ws (Suc k)"
  have "raw_loop ws [Suc k ..< Suc n] (nearest_label ws k) raw
        = raw_loop ws [Suc (Suc k) ..< Suc n] ?l (raw @ [?l])"
    unfolding step by (simp add: Let_def)
  also have "\<dots> = (raw @ [?l]) @ map (nearest_label ws) [Suc (Suc k) ..< Suc n]"
    using Suc.hyps(1) [OF d] .
  finally show ?case unfolding step by simp
qed

lemma raw_loop_all:
  "raw_loop ws [1 ..< max_column ws + 1] [] [] = map (nearest_label ws) [1 ..< max_column ws + 1]"
  using raw_loop_nearest [of ws 0 "max_column ws" "[]"] by simp

lemma nearest_label_mono:
  "nearest_label ws c \<noteq> [] \<Longrightarrow> c \<le> d \<Longrightarrow> nearest_label ws d \<noteq> []"
proof (induction d)
  case 0
  then show ?case by simp
next
  case (Suc d)
  then show ?case by (cases "c = Suc d") (auto simp: Let_def)
qed

lemma find_comp1_Some:
  "find_comp1 i xs = Some j \<Longrightarrow> i \<le> j \<and> j < i + length xs \<and> xs ! (j - i) = ''COMPARABLE SALE #1''"
proof (induction xs arbitrary: i)
  case Nil
  then show ?case by simp
next
  case (Cons x xs)
  show ?case
  proof (cases "x = ''COMPARABLE SALE #1''")
    case True
    with Cons.prems show ?thesis by simp
  next
    case False
    with Cons.prems have "find_comp1 (Suc i) xs = Some j" by simp
    from Cons.IH [OF this] show ?thesis by (auto simp: Suc_diff_le)
  qed
qed

lemma find_comp1_None:
  "find_comp1 i xs = None \<Longrightarrow> ''COMPARABLE SALE #1'' \<notin> set xs"
  by (induction xs arbitrary: i) (auto split: if_splits)

lemma final_loop_eq:
  assumes "\<forall>col \<in> set cols. col - 1 < length raw"
  shows "final_loop ws raw c1 cols final
         = Inr (\<lambda>col. if col \<in> set cols then Some (fallback_section ws c1 col (raw ! (col - 1))) else final col)"
  using assms
proof (induction cols arbitrary: final)
  case Nil
  then show ?case by simp
next
  case (Cons col cols)
  have idx: "py_index raw (col - 1) = Inr (raw ! (col - 1))"
    using Cons.prems by (simp add: py_index_def)
  have rest: "\<forall>c \<in> set cols. c - 1 < length raw" using Cons.prems by simp
  show ?case
    unfolding final_loop.simps idx
    by (simp only: sum.case Cons.IH [OF rest] fun_upd_def) (auto intro!: ext)
qed

lemma not_in_imageD: "y \<notin> f ` A \<Longrightarrow> \<forall>c \<in> A. f c \<noteq> y"
  by blast

lemma comp1_exists_iff:
  assumes col: "1 \<le> col" "col \<le> n" and empty: "nearest_label ws col = []"
  shows "(case find_comp1 1 (map (nearest_label ws) [1 ..< n + 1]) of
            None \<Rightarrow> False | Some c1 \<Rightarrow> c1 \<noteq> 0 \<and> col < c1)
         \<longleftrightarrow> (\<exists>c \<in> set [1 ..< n + 1]. nearest_label ws c = ''COMPARABLE SALE #1'' \<and> col < c)"
proof (cases "find_comp1 1 (map (nearest_label ws) [1 ..< n + 1])")
  case None
  from find_comp1_None [OF this]
  have "''COMPARABLE SALE #1'' \<notin> nearest_label ws ` set [1 ..< n + 1]"
    by (simp)
  then have "\<forall>c \<in> set [1 ..< n + 1]. nearest_label ws c \<noteq> ''COMPARABLE SALE #1''"
    by (rule not_in_imageD)
  with None show ?thesis by (simp)
next
  case (Some c1)
  from find_comp1_Some [OF this]
  have r: "1 \<le> c1" "c1 < 1 + n" and at: "map (nearest_label ws) [1 ..< n + 1] ! (c1 - 1) = ''COMPARABLE SALE #1''"
    by auto
  have lab: "nearest_label ws c1 = ''COMPARABLE SALE #1''"
    using at r by (simp add: nth_map_upt)
  have "col < c1"
  proof (rule ccontr)
    assume "\<not> col < c1"
    then have "c1 \<le> col" by simp
    moreover have "nearest_label ws c1 \<noteq> []" using lab by simp
    ultimately have "nearest_label ws col \<noteq> []" by (simp add: nearest_label_mono)
    with empty show False by simp
  qed
  moreover have "c1 \<in> set [1 ..< n + 1]" using r by simp
  ultimately have "\<exists>c \<in> set [1 ..< n + 1]. nearest_label ws c = ''COMPARABLE SALE #1'' \<and> col < c"
    using lab by blast
  moreover have "c1 \<noteq> 0" using r by simp
  ultimately show ?thesis using Some \<open>col < c1\<close> by (simp)
qed

lemma detect_sections_final:
  "detect_sections ws
   = Inr (\<lambda>col. if col \<in> set [1 ..< max_column ws + 1]
               then Some (fallback_section ws
                            (find_comp1 1 (map (nearest_label ws) [1 ..< max_column ws + 1])) col
                            (map (nearest_label ws) [1 ..< max_column ws + 1] ! (col - 1)))
               else None)"
proof -
  let ?n = "max_column ws"
  let ?raw = "map (nearest_label ws) [1 ..< ?n + 1]"
  let ?c1 = "find_comp1 1 ?raw"
  have in_range: "\<forall>col \<in> set [1 ..< ?n + 1]. col - 1 < length ?raw"
    by auto
  have "detect_sections ws = final_loop ws ?raw ?c1 [1 ..< ?n + 1] Map.empty"
    by (simp only: detect_sections_def Let_def raw_loop_all)
  also have "\<dots> = Inr (\<lambda>col. if col \<in> set [1 ..< ?n + 1] then Some (fallback_section ws ?c1 col (?raw ! (col - 1))) else None)"
    by (rule final_loop_eq [OF in_range])
  finally show ?thesis .
qed

lemma detect_sections_total:
  "\<exists>secmap. detect_sections ws = Inr secmap \<and> (\<forall>c. 1 \<le> c \<and> c \<le> max_column ws \<longrightarrow> secmap c \<noteq> None)"
  unfolding detect_sections_final by auto

text \<open>
  Claim C3. \<^verbatim>\<open>detect_sections\<close> never fails and gives every column from 1 to
  \<^verbatim>\<open>max_column\<close>, and no other, a section: the label of the nearest section-row cell at or
  left of the column that canonicalizes non-empty; without one, SUBJECT when a column that
  resolves to COMPARABLE SALE #1 lies to its right, else SALES_HISTORY_SUBJECT when its
  canonical field label is a sales-history comparable field, else the empty section.
\<close>

theorem detect_sections_spec:
  "detect_sections ws
   = Inr (\<lambda>col. if 1 \<le> col \<and> col \<le> max_column ws then Some (spec_section ws col) else None)"
proof -
  let ?n = "max_column ws"
  let ?raw = "map (nearest_label ws) [1 ..< ?n + 1]"
  let ?c1 = "find_comp1 1 ?raw"
  have sec: "fallback_section ws ?c1 col (?raw ! (col - 1)) = spec_section ws col" if "1 \<le> col" "col \<le> ?n" for col
  proof -
    have nth: "?raw ! (col - 1) = nearest_label ws col"
      using that by (simp add: nth_map_upt)
    show ?thesis
    proof (cases "nearest_label ws col = []")
      case True
      from comp1_exists_iff [OF that True] True nth show ?thesis
        by (simp add: fallback_section_def spec_section_def Let_def)
    next
      case False
      with nth show ?thesis by (simp add: fallback_section_def spec_section_def Let_def)
    qed
  qed
  have "detect_sections ws
        = Inr (\<lambda>col. if col \<in> set [1 ..< ?n + 1] then Some (fallback_section ws ?c1 col (?raw ! (col - 1))) else None)"
    by (rule detect_sections_final)
  also have "\<dots> = Inr (\<lambda>col. if 1 \<le> col \<and> col \<le> ?n then Some (spec_section ws col) else None)"
    using sec by (auto intro!: ext)
  finally show ?thesis .
qed

lemma ex_sections:
  "map (spec_section (header_sheet
          [PNone, PNone, PStr ''Comparable Sale #1'', PNone]
          [PStr ''State'', PStr ''Data Source(s)'', PStr ''GLA'', PStr ''Bdrms'']))
       [1, 2, 3, 4]
   = [''SUBJECT'', ''SUBJECT'', ''COMPARABLE SALE #1'', ''COMPARABLE SALE #1'']"
  by code_simp

theorem detect_sections_spec_witness:
  "detect_sections (header_sheet
      [PNone, PNone, PStr ''Comparable Sale #1'', PNone]
      [PStr ''State'', PStr ''Data Source(s)'', PStr ''GLA'', PStr ''Bdrms''])
   = Inr [1 \<mapsto> ''SUBJECT'', 2 \<mapsto> ''SUBJECT'', 3 \<mapsto> ''COMPARABLE SALE #1'',
          4 \<mapsto> ''COMPARABLE SALE #1'']"
proof -
  let ?ws = "header_sheet
      [PNone, PNone, PStr ''Comparable Sale #1'', PNone]
      [PStr ''State'', PStr ''Data Source(s)'', PStr ''GLA'', PStr ''Bdrms'']"
  have n: "max_column ?ws = 4" by (simp add: header_sheet_def)
  have s: "spec_section ?ws (Suc 0) = ''SUBJECT''" "spec_section ?ws 2 = ''SUBJECT''"
    "spec_section ?ws 3 = ''COMPARABLE SALE #1''" "spec_section ?ws 4 = ''COMPARABLE SALE #1''"
    using ex_sections by simp_all
  have "(\<lambda>col. if 1 \<le> col \<and> col \<le> max_column ?ws then Some (spec_section ?ws col) else None)
        = [1 \<mapsto> ''SUBJECT'', 2 \<mapsto> ''SUBJECT'', 3 \<mapsto> ''COMPARABLE SALE #1'',
           4 \<mapsto> ''COMPARABLE SALE #1'']"
  proof (rule ext)
    fix col :: nat
    consider "col = 0" | "col = 1" | "col = 2" | "col = 3" | "col = 4" | "4 < col" by linarith
    then show "(if 1 \<le> col \<and> col \<le> max_column ?ws then Some (spec_section ?ws col) else None)
        = [1 \<mapsto> ''SUBJECT'', 2 \<mapsto> ''SUBJECT'', 3 \<mapsto> ''COMPARABLE SALE #1'',
           4 \<mapsto> ''COMPARABLE SALE #1''] col"
      by cases (simp_all add: n s)
  qed
  with detect_sections_spec [of ?ws] show ?thesis by simp
qed


section \<open>Properties of the column map\<close>

lemma colmap_loop_append:
  "colmap_loop ws sm (xs @ ys) cm
   = (case colmap_loop ws sm xs cm of Inl e \<Rightarrow> Inl e | Inr cm' \<Rightarrow> colmap_loop ws sm ys cm')"
  by (induction xs arbitrary: cm) (auto split: option.splits simp: Let_def)

lemma setdefault_eq:
  "setdefault d k v = (if k \<in> fst ` set d then d else d @ [(k, v)])"
proof (cases "map_of d k")
  case None
  then have "k \<notin> fst ` set d" by (simp add: map_of_eq_None_iff)
  with None show ?thesis by (simp add: setdefault_def)
next
  case (Some x)
  then have "k \<in> fst ` set d" by (metis map_of_eq_None_iff option.distinct(1))
  with Some show ?thesis by (simp add: setdefault_def)
qed

lemma setdefault_set:
  "set (setdefault d k v) = (if k \<in> fst ` set d then set d else insert (k, v) (set d))"
  by (simp add: setdefault_eq)

lemma setdefault_distinct:
  "distinct (map fst d) \<Longrightarrow> distinct (map fst (setdefault d k v))"
  by (simp add: setdefault_eq)

lemma first_bearing_Suc:
  "first_bearing ws sm (Suc k) s f c
   \<longleftrightarrow> first_bearing ws sm k s f c
       \<or> (c = Suc k \<and> bears ws sm (Suc k) s f \<and> \<not> (\<exists>c' \<in> set [1 ..< Suc k]. bears ws sm c' s f))"
  by (auto simp: first_bearing_def le_Suc_eq)

lemma colmap_step:
  assumes inv: "\<forall>s f c. ((s, f), c) \<in> set cm \<longleftrightarrow> s \<noteq> [] \<and> f \<noteq> [] \<and> first_bearing ws sm k s f c"
    and sm: "sm (Suc k) = Some sec"
    and fld: "field = canonical_field (cell_value ws ROW_FIELDS (Suc k))"
    and cm': "cm' = (if sec \<noteq> [] \<and> field \<noteq> [] then setdefault cm (sec, field) (Suc k) else cm)"
  shows "\<forall>s f c. ((s, f), c) \<in> set cm' \<longleftrightarrow> s \<noteq> [] \<and> f \<noteq> [] \<and> first_bearing ws sm (Suc k) s f c"
proof -
  have b: "bears ws sm (Suc k) s f \<longleftrightarrow> s = sec \<and> f = field" for s f
    using sm fld by (auto simp: bears_def)
  have seen: "(sec, field) \<in> fst ` set cm \<longleftrightarrow> (\<exists>c' \<in> set [1 ..< Suc k]. bears ws sm c' sec field)"
    if ne: "sec \<noteq> []" "field \<noteq> []"
  proof
    assume "(sec, field) \<in> fst ` set cm"
    then obtain c where "((sec, field), c) \<in> set cm" by force
    with inv have "first_bearing ws sm k sec field c" by blast
    then show "\<exists>c' \<in> set [1 ..< Suc k]. bears ws sm c' sec field"
      by (auto simp: first_bearing_def)
  next
    assume "\<exists>c' \<in> set [1 ..< Suc k]. bears ws sm c' sec field"
    then have ex: "\<exists>c'. 1 \<le> c' \<and> c' \<le> k \<and> bears ws sm c' sec field" by auto
    define c0 where "c0 = (LEAST c'. 1 \<le> c' \<and> c' \<le> k \<and> bears ws sm c' sec field)"
    have c0: "1 \<le> c0 \<and> c0 \<le> k \<and> bears ws sm c0 sec field"
      unfolding c0_def using ex by (rule LeastI_ex)
    have least: "\<not> (1 \<le> c' \<and> c' \<le> k \<and> bears ws sm c' sec field)" if "c' < c0" for c'
      using that unfolding c0_def by (rule not_less_Least)
    have "first_bearing ws sm k sec field c0"
      using c0 least by (auto simp: first_bearing_def)
    with inv ne have "((sec, field), c0) \<in> set cm" by blast
    then show "(sec, field) \<in> fst ` set cm" by force
  qed
  show ?thesis
  proof (cases "sec \<noteq> [] \<and> field \<noteq> []")
    case False
    then have "cm' = cm" using cm' by auto
    moreover have "\<not> (s \<noteq> [] \<and> f \<noteq> [] \<and> bears ws sm (Suc k) s f)" for s f
      using False b by auto
    ultimately show ?thesis using inv by (auto simp: first_bearing_Suc)
  next
    case True
    then have cm'': "cm' = setdefault cm (sec, field) (Suc k)" using cm' by simp
    show ?thesis
    proof (cases "(sec, field) \<in> fst ` set cm")
      case in_cm: True
      then have "set cm' = set cm" using cm'' by (simp add: setdefault_set)
      moreover have "\<exists>c' \<in> set [1 ..< Suc k]. bears ws sm c' sec field"
        using in_cm seen True by blast
      ultimately show ?thesis using inv b by (auto simp: first_bearing_Suc)
    next
      case not_in: False
      then have "set cm' = insert ((sec, field), Suc k) (set cm)"
        using cm'' by (simp add: setdefault_set)
      moreover have "\<not> (\<exists>c' \<in> set [1 ..< Suc k]. bears ws sm c' sec field)"
        using not_in seen True by blast
      ultimately show ?thesis using inv b True by (auto simp: first_bearing_Suc)
    qed
  qed
qed

lemma colmap_prefix:
  assumes sm: "\<forall>c. 1 \<le> c \<and> c \<le> n \<longrightarrow> sm c \<noteq> None"
  shows "k \<le> n \<Longrightarrow>
         \<exists>cm. colmap_loop ws sm [1 ..< Suc k] [] = Inr cm \<and> distinct (map fst cm)
            \<and> (\<forall>s f c. ((s, f), c) \<in> set cm \<longleftrightarrow> s \<noteq> [] \<and> f \<noteq> [] \<and> first_bearing ws sm k s f c)"
proof (induction k)
  case 0
  then show ?case by (simp add: first_bearing_def)
next
  case (Suc k)
  then obtain cm where run: "colmap_loop ws sm [1 ..< Suc k] [] = Inr cm"
    and dist: "distinct (map fst cm)"
    and inv: "\<forall>s f c. ((s, f), c) \<in> set cm \<longleftrightarrow> s \<noteq> [] \<and> f \<noteq> [] \<and> first_bearing ws sm k s f c"
    by auto
  from sm Suc.prems obtain sec where sec: "sm (Suc k) = Some sec" by force
  define field where "field = canonical_field (cell_value ws ROW_FIELDS (Suc k))"
  define cm' where "cm' = (if sec \<noteq> [] \<and> field \<noteq> [] then setdefault cm (sec, field) (Suc k) else cm)"
  have "[1 ..< Suc (Suc k)] = [1 ..< Suc k] @ [Suc k]" by (simp add: upt_Suc)
  then have "colmap_loop ws sm [1 ..< Suc (Suc k)] [] = Inr cm'"
    using run sec by (simp add: colmap_loop_append Let_def cm'_def field_def)
  moreover have "distinct (map fst cm')"
    using dist by (simp add: cm'_def setdefault_distinct)
  moreover note colmap_step [OF inv sec field_def cm'_def]
  ultimately show ?case by blast
qed

lemma build_colmap_first:
  assumes "\<forall>c. 1 \<le> c \<and> c \<le> max_column ws \<longrightarrow> sm c \<noteq> None"
  shows "\<exists>cm. build_colmap ws sm = Inr cm \<and> distinct (map fst cm)
            \<and> (\<forall>s f c. ((s, f), c) \<in> set cm
                  \<longleftrightarrow> s \<noteq> [] \<and> f \<noteq> [] \<and> first_bearing ws sm (max_column ws) s f c)"
  using colmap_prefix [OF assms, of "max_column ws" ws] by (simp add: build_colmap_def)


text \<open>
  Claim C5, as amended. The column map never fails on the detector's output, holds every
  identity at most once, and holds exactly the entries \<^verbatim>\<open>(s, f) \<mapsto> c\<close> with \<^verbatim>\<open>s\<close> and
  \<^verbatim>\<open>f\<close> both non-empty and \<^verbatim>\<open>c\<close> the first column that bears the identity \<^verbatim>\<open>(s, f)\<close>:
  a later column with the same identity is never a write target, and a column whose
  section or field is empty is never mapped.
\<close>

theorem colmap_first_occurrence:
  assumes "detect_sections ws = Inr secmap"
  shows "\<exists>cm. build_colmap ws secmap = Inr cm \<and> distinct (map fst cm)
            \<and> (\<forall>s f c. ((s, f), c) \<in> set cm
                  \<longleftrightarrow> s \<noteq> [] \<and> f \<noteq> [] \<and> first_bearing ws secmap (max_column ws) s f c)"
proof -
  from detect_sections_total [of ws] assms
  have "\<forall>c. 1 \<le> c \<and> c \<le> max_column ws \<longrightarrow> secmap c \<noteq> None" by auto
  then show ?thesis by (rule build_colmap_first)
qed

lemma ex_dup_sections:
  "detect_sections (header_sheet [PStr ''Subject'', PNone] [PStr ''Bdrms'', PStr ''Bedrooms''])
   = Inr [1 \<mapsto> ''SUBJECT'', 2 \<mapsto> ''SUBJECT'']"
proof -
  let ?ws = "header_sheet [PStr ''Subject'', PNone] [PStr ''Bdrms'', PStr ''Bedrooms'']"
  have n: "max_column ?ws = 2" by (simp add: header_sheet_def)
  have "map (\<lambda>col. fallback_section ?ws
                (find_comp1 1 (map (nearest_label ?ws) [1 ..< 2 + 1])) col
                (map (nearest_label ?ws) [1 ..< 2 + 1] ! (col - 1))) [1, 2]
        = [''SUBJECT'', ''SUBJECT'']"
    by code_simp
  then have s: "fallback_section ?ws (find_comp1 1 (map (nearest_label ?ws) [1 ..< 2 + 1])) (Suc 0)
                  (map (nearest_label ?ws) [1 ..< 2 + 1] ! 0) = ''SUBJECT''"
    "fallback_section ?ws (find_comp1 1 (map (nearest_label ?ws) [1 ..< 2 + 1])) 2
                  (map (nearest_label ?ws) [1 ..< 2 + 1] ! 1) = ''SUBJECT''"
    by simp_all
  have set12: "set [1 ..< 2 + 1] = {Suc 0, 2}" by (auto simp: upt_Suc)
  show ?thesis
    unfolding detect_sections_final n set12
    by (rule arg_cong [where f = Inr], rule ext) (use s in \<open>auto simp: numeral_2_eq_2\<close>)
qed

lemma ex_dup_fields:
  "canonical_field (cell_value (header_sheet [PStr ''Subject'', PNone] [PStr ''Bdrms'', PStr ''Bedrooms'']) ROW_FIELDS 1) = ''BEDROOMS''"
  "canonical_field (cell_value (header_sheet [PStr ''Subject'', PNone] [PStr ''Bdrms'', PStr ''Bedrooms'']) ROW_FIELDS 2) = ''BEDROOMS''"
  by code_simp+

theorem colmap_first_occurrence_witness:
  "build_colmap (header_sheet [PStr ''Subject'', PNone] [PStr ''Bdrms'', PStr ''Bedrooms''])
     [1 \<mapsto> ''SUBJECT'', 2 \<mapsto> ''SUBJECT'']
   = Inr [((''SUBJECT'', ''BEDROOMS''), 1)]"
proof -
  let ?ws = "header_sheet [PStr ''Subject'', PNone] [PStr ''Bdrms'', PStr ''Bedrooms'']"
  let ?sm = "[1 \<mapsto> ''SUBJECT'', 2 \<mapsto> ''SUBJECT'']"
  from colmap_first_occurrence [OF ex_dup_sections]
  obtain cm where "build_colmap ?ws ?sm = Inr cm" by blast
  moreover have "build_colmap ?ws ?sm = Inr [((''SUBJECT'', ''BEDROOMS''), 1)]"
    using ex_dup_fields
    by (simp add: build_colmap_def header_sheet_def upt_Suc numeral_2_eq_2 setdefault_def Let_def)
  ultimately show ?thesis by simp
qed


lemma ex_gla_field:
  "canonical_field (cell_value (header_sheet [PNone] [PStr ''GLA'']) ROW_FIELDS 1) = ''GLA''"
  by code_simp

lemma ex_gla_sections:
  "detect_sections (header_sheet [PNone] [PStr ''GLA'']) = Inr [1 \<mapsto> []]"
proof -
  let ?ws = "header_sheet [PNone] [PStr ''GLA'']"
  have n: "max_column ?ws = 1" by (simp add: header_sheet_def)
  have "fallback_section ?ws (find_comp1 1 (map (nearest_label ?ws) [1 ..< 1 + 1])) 1
          (map (nearest_label ?ws) [1 ..< 1 + 1] ! (1 - 1)) = []"
    by code_simp
  then have s: "fallback_section ?ws (find_comp1 1 (map (nearest_label ?ws) [1 ..< 1 + 1])) (Suc 0)
          (map (nearest_label ?ws) [1 ..< 1 + 1] ! 0) = []"
    by simp
  have set1: "set [1 ..< 1 + 1] = {Suc 0}" by (auto simp: upt_Suc)
  show ?thesis
    unfolding detect_sections_final n set1
    by (rule arg_cong [where f = Inr], rule ext) (use s in auto)
qed

text \<open>
  The claim as stated fails on a one-column sheet with a blank section cell and the field
  GLA: column 1 bears the identity with the empty section, and the column map is empty.
\<close>

theorem colmap_empty_section_counterexample:
  "detect_sections (header_sheet [PNone] [PStr ''GLA'']) = Inr [1 \<mapsto> []]
   \<and> bears (header_sheet [PNone] [PStr ''GLA'']) [1 \<mapsto> []] 1 [] ''GLA''
   \<and> build_colmap (header_sheet [PNone] [PStr ''GLA'']) [1 \<mapsto> []] = Inr []"
proof -
  have "build_colmap (header_sheet [PNone] [PStr ''GLA'']) [1 \<mapsto> []] = Inr []"
    by (simp add: build_colmap_def header_sheet_def upt_Suc Let_def)
  moreover have "bears (header_sheet [PNone] [PStr ''GLA'']) [1 \<mapsto> []] 1 [] ''GLA''"
    using ex_gla_field by (simp add: bears_def)
  ultimately show ?thesis using ex_gla_sections by simp
qed


section \<open>Properties of the writer\<close>

lemma set_cell_value:
  "cell_value (set_cell ws r c v) r' c' = (if r' = r \<and> c' = c then v else cell_value ws r' c')"
  by (simp add: set_cell_def)

lemma fill_loop_keeps:
  "\<not> is_blank (cell_value ws new_row c) \<Longrightarrow>
   cell_value (fst (fill_loop new_row flat cm ws n)) new_row c = cell_value ws new_row c"
proof (induction new_row flat cm ws n rule: fill_loop.induct)
  case (1 new_row flat ws filled)
  then show ?case by simp
next
  case (2 new_row flat sec field col rest ws filled)
  show ?case
  proof (cases "is_blank (cell_value ws new_row col)")
    case False
    with 2 show ?thesis by simp
  next
    case blank: True
    with "2.prems" have ne: "col \<noteq> c" by auto
    show ?thesis
    proof (cases "pick_value sec field flat = []")
      case True
      with blank 2 show ?thesis by simp
    next
      case False
      let ?ws' = "set_cell ws new_row col (PStr (pick_value sec field flat))"
      have same: "cell_value ?ws' new_row c = cell_value ws new_row c"
        using ne by (simp add: set_cell_value)
      then have "\<not> is_blank (cell_value ?ws' new_row c)" using "2.prems" by simp
      from "2.IH"(2) [OF _ _ refl False this] blank
      have "cell_value (fst (fill_loop new_row flat rest ?ws' (filled + 1))) new_row c
            = cell_value ?ws' new_row c"
        by simp
      with same blank False show ?thesis by (simp add: Let_def)
    qed
  qed
qed

lemma fill_loop_all_filled:
  "\<forall>e \<in> set cm. \<not> is_blank (cell_value ws new_row (snd e)) \<Longrightarrow>
   fill_loop new_row flat cm ws n = (ws, n)"
  by (induction new_row flat cm ws n rule: fill_loop.induct) auto

lemma fill_loop_no_values:
  "\<forall>e \<in> set cm. pick_value (fst (fst e)) (snd (fst e)) flat = [] \<Longrightarrow>
   fill_loop new_row flat cm ws n = (ws, n)"
  by (induction new_row flat cm ws n rule: fill_loop.induct) (auto simp: Let_def)

text \<open>
  Claim C4. The fill loop leaves every cell of the target row that holds anything other
  than None, the empty string or a single space as it is; so when every mapped cell of the
  target row is already non-blank, the loop returns the worksheet unchanged and the count
  it was started with, which is 0.
\<close>

theorem writer_never_overwrites:
  "(\<not> is_blank (cell_value ws new_row c) \<longrightarrow>
      cell_value (fst (fill_loop new_row flat cm ws filled)) new_row c = cell_value ws new_row c)
   \<and> ((\<forall>e \<in> set cm. \<not> is_blank (cell_value ws new_row (snd e))) \<longrightarrow>
      fill_loop new_row flat cm ws 0 = (ws, 0))"
  using fill_loop_keeps [of ws new_row c flat cm filled] fill_loop_all_filled [of cm ws new_row flat 0]
  by blast

theorem writer_never_overwrites_witness:
  "cell_value (fst (fill_loop 4 [''SUBJECT.STATE'' \<mapsto> ''WI''] [((''SUBJECT'', ''STATE''), 1)] filled_sheet 0)) 4 1
     = PStr ''IL''
   \<and> fill_loop 4 [''SUBJECT.STATE'' \<mapsto> ''WI''] [((''SUBJECT'', ''STATE''), 1)] filled_sheet 0
     = (filled_sheet, 0)"
proof -
  have nb: "\<not> is_blank (cell_value filled_sheet 4 1)"
    by (simp add: filled_sheet_def is_blank_def)
  have all: "\<forall>e \<in> set [((''SUBJECT'', ''STATE''), 1 :: nat)]. \<not> is_blank (cell_value filled_sheet 4 (snd e))"
    using nb by simp
  have v: "cell_value filled_sheet 4 1 = PStr ''IL''" by (simp add: filled_sheet_def)
  from writer_never_overwrites [of filled_sheet 4 1 "[''SUBJECT.STATE'' \<mapsto> ''WI'']"
      "[((''SUBJECT'', ''STATE''), 1)]" 0]
  have "cell_value (fst (fill_loop 4 [''SUBJECT.STATE'' \<mapsto> ''WI''] [((''SUBJECT'', ''STATE''), 1)] filled_sheet 0)) 4 1
          = cell_value filled_sheet 4 1"
    and "fill_loop 4 [''SUBJECT.STATE'' \<mapsto> ''WI''] [((''SUBJECT'', ''STATE''), 1)] filled_sheet 0
          = (filled_sheet, 0)"
    using nb all by blast+
  then show ?thesis using v by (simp only: simp_thms)
qed

section \<open>Properties of the flattener\<close>

lemma store_leaf_assignments:
  "path \<noteq> [] \<Longrightarrow> store_leaf path obj flat = Inr (fold assign (leaf_assignments path obj) flat)"
  by (simp add: store_leaf_def leaf_assignments_def Let_def assign_def)

lemma walk_assignments:
  "(path \<noteq> [] \<or> (\<exists>kvs. j = Dict kvs)) \<Longrightarrow>
     walk path j flat = Inr (fold assign (assignments path j) flat)"
  "walk_items path kvs flat = Inr (fold assign (assignments_items path kvs) flat)"
proof (induction path j flat and path kvs flat rule: walk_walk_items.induct)
  case (1 path kvs flat)
  then show ?case by simp
next
  case (2 path obj flat)
  then show ?case by (simp add: store_leaf_assignments)
next
  case (3 path flat)
  then show ?case by simp
next
  case (4 path k v kvs flat)
  have "walk (path @ [k]) v flat = Inr (fold assign (assignments (path @ [k]) v) flat)"
    using "4.IH"(1) by simp
  with "4.IH"(2) show ?case by simp
qed

lemma flatten_json_Dict:
  "flatten_json (Dict kvs) = Inr (fold assign (assignments [] (Dict kvs)) Map.empty)"
  by (simp add: flatten_json_def walk_assignments(2))

lemma fold_assign_notin:
  "k \<notin> fst ` set post \<Longrightarrow> fold assign post flat k = flat k"
  by (induction post arbitrary: flat) (auto simp: assign_def)

lemma fold_assign_last:
  "k \<notin> fst ` set post \<Longrightarrow> fold assign (pre @ (k, v) # post) flat k = Some v"
  by (simp add: fold_assign_notin assign_def)


text \<open>
  Claim C2, as amended. A document that is a dict always flattens; the value stored under a
  key is the one of the last assignment to that key during the depth-first walk, so when
  two leaves flatten to the same key the later one wins.
\<close>

theorem flatten_last_write_wins:
  assumes "assignments [] (Dict kvs) = pre @ (key, v) # post"
    and "key \<notin> fst ` set post"
  shows "\<exists>flat. flatten_json (Dict kvs) = Inr flat \<and> flat key = Some v"
proof -
  have "flatten_json (Dict kvs) = Inr (fold assign (pre @ (key, v) # post) Map.empty)"
    by (simp only: flatten_json_Dict assms(1))
  moreover have "fold assign (pre @ (key, v) # post) Map.empty key = Some v"
    using assms(2) by (rule fold_assign_last)
  ultimately show ?thesis by blast
qed

lemma bedrooms_assignments:
  "assignments [] bedrooms_doc = [(''SUBJECT.BEDROOMS'', ''3''), (''SUBJECT.BEDROOMS'', ''4'')]"
  by code_simp

text \<open>
  The claim as stated fails on a SUBJECT block that holds both "Bdrms" and "Bedrooms": both
  leaves flatten to SUBJECT.BEDROOMS, and the index holds the value of the second.
\<close>

theorem flatten_first_wins_counterexample:
  "assignments [] bedrooms_doc = [(''SUBJECT.BEDROOMS'', ''3''), (''SUBJECT.BEDROOMS'', ''4'')]
   \<and> flatten_json bedrooms_doc = Inr [''SUBJECT.BEDROOMS'' \<mapsto> ''4'']"
proof -
  have "flatten_json bedrooms_doc = Inr (fold assign (assignments [] bedrooms_doc) Map.empty)"
    unfolding bedrooms_doc_def by (rule flatten_json_Dict)
  then show ?thesis by (simp add: bedrooms_assignments assign_def)
qed

theorem flatten_last_write_wins_witness:
  "\<exists>flat. flatten_json bedrooms_doc = Inr flat \<and> flat ''SUBJECT.BEDROOMS'' = Some ''4''"
proof -
  have a: "assignments [] bedrooms_doc = [(''SUBJECT.BEDROOMS'', ''3'')] @ (''SUBJECT.BEDROOMS'', ''4'') # []"
    using bedrooms_assignments by simp
  show ?thesis
    using flatten_last_write_wins [OF a [unfolded bedrooms_doc_def]]
    by (simp add: bedrooms_doc_def)
qed








section \<open>Properties of the error-shaped document\<close>

lemma error_fields:
  "canonical_field (PStr ''error'') = ''ERROR''"
  "canonical_field (PStr ''raw_output'') = ''RAW_OUTPUT''"
  by code_simp+

lemma flatten_error_document: "flatten_json (error_document raw_text) = Inr Map.empty"
  by (simp add: flatten_json_def error_document_def store_leaf_def error_fields
      FIELD_ONLY_SET_def Let_def)

lemma pick_value_empty: "pick_value section field Map.empty = []"
  by (simp add: pick_value_def flat_get_def)

lemma fill_excel_empty_index:
  assumes "flatten_json doc = Inr Map.empty"
  shows "fill_excel ws doc = Inr (ws, 0)"
proof -
  obtain secmap where s: "detect_sections ws = Inr secmap"
    and t: "\<forall>c. 1 \<le> c \<and> c \<le> max_column ws \<longrightarrow> secmap c \<noteq> None"
    using detect_sections_total by blast
  obtain cm where c: "build_colmap ws secmap = Inr cm"
    using build_colmap_first [OF t] by blast
  have "fill_loop (max (max_row ws + 1) FIRST_DATA_ROW) Map.empty cm ws 0 = (ws, 0)"
    by (rule fill_loop_no_values) (simp add: pick_value_empty)
  then show ?thesis by (simp add: fill_excel_def assms s c)
qed

text \<open>
  Claim C8. The error-shaped document that replaces unparsable model output flattens to the
  empty index, whatever the raw text is; every lookup in that index resolves to the empty
  string; and filling any worksheet from it returns normally with the worksheet unchanged
  and a fill count of 0.
\<close>

theorem error_document_fills_nothing:
  "flatten_json (error_document raw_text) = Inr Map.empty
   \<and> pick_value section field Map.empty = []
   \<and> fill_excel ws (error_document raw_text) = Inr (ws, 0)"
  by (simp only: flatten_error_document pick_value_empty
      fill_excel_empty_index [OF flatten_error_document] simp_thms)

section \<open>Shape of the keys of the flat index\<close>

































end
